theory Spec2Isabelle
  imports Complex_Main
begin

section \<open>Article records\<close>

text \<open>
  The flat record of \<^verbatim>\<open>src/src/lib/api.ts\<close> (interface \<^verbatim>\<open>Article\<close>). Optional and
  nullable fields are options: \<open>None\<close> is the \<^verbatim>\<open>null\<close> that the query client delivers
  for an empty column. A timestamp is held as the number \<^verbatim>\<open>new Date(s).getTime()\<close> of
  its ISO string (milliseconds since the epoch); the store only delivers valid timestamps.
\<close>

datatype status = Draft | Published

type_synonym timestamp = int

record article =
  id' :: string
  title :: string
  slug :: string
  content :: string
  category :: "string option"
  status :: status
  parentId :: "string option"
  createdAt :: timestamp
  updatedAt :: timestamp
  publishedAt :: "timestamp option"
  authorId :: "string option"
  featuredImage :: "string option"
  imageAlt :: "string option"

text \<open>
  Errors of the JavaScript runtime that the modelled functions can raise: \<open>TypeError\<close>
  (calling a property that is not a function), \<open>RangeError\<close> (the call stack is
  exhausted by a recursion that is too deep) and \<open>QueryError\<close> (the \<^verbatim>\<open>Error\<close> thrown
  when the query client reports a failure).
\<close>

datatype error = TypeError | RangeError | QueryError

fun mapE :: "('a \<Rightarrow> error + 'b) \<Rightarrow> 'a list \<Rightarrow> error + 'b list" where
  "mapE f [] = Inr []"
| "mapE f (x # xs) =
     (case f x of
        Inl e \<Rightarrow> Inl e
      | Inr y \<Rightarrow> (case mapE f xs of Inl e \<Rightarrow> Inl e | Inr ys \<Rightarrow> Inr (y # ys)))"

section \<open>The categorized forest (\<^verbatim>\<open>articleAPI.getCategorizedHierarchy\<close>)\<close>

text \<open>A tree node is an article with its \<^verbatim>\<open>children\<close> array.\<close>

datatype tree_node = TreeNode (node_article: article) (children: "tree_node list")

fun subnodes :: "tree_node \<Rightarrow> tree_node list" where
  "subnodes (TreeNode a cs) = TreeNode a cs # concat (map subnodes cs)"

definition forest_nodes :: "tree_node list \<Rightarrow> tree_node list" where
  "forest_nodes ts = concat (map subnodes ts)"

text \<open>
  \<^verbatim>\<open>.sort((a, b) => new Date(b.createdAt).getTime() - new Date(a.createdAt).getTime())\<close>:
  the sort of an array is stable, and this comparator puts the later timestamp first.
\<close>

definition sortByCreatedAtDesc :: "tree_node list \<Rightarrow> tree_node list" where
  "sortByCreatedAtDesc ts = sort_key (\<lambda>t. - createdAt (node_article t)) ts"

text \<open>
  \<^verbatim>\<open>buildHierarchy(articles, parentId = null)\<close>. The recursion of the source has no
  bound of its own; the first argument is the depth of call stack that is left, and
  running out of it is the \<open>RangeError\<close> of the runtime.
\<close>

fun buildHierarchy :: "nat \<Rightarrow> article list \<Rightarrow> string option \<Rightarrow> error + tree_node list" where
  "buildHierarchy 0 articles pid = Inl RangeError"
| "buildHierarchy (Suc n) articles pid =
     (case mapE (\<lambda>a. case buildHierarchy n articles (Some (id' a)) of
                         Inl e \<Rightarrow> Inl e
                       | Inr cs \<Rightarrow> Inr (TreeNode a cs))
                (filter (\<lambda>a. parentId a = pid) articles) of
        Inl e \<Rightarrow> Inl e
      | Inr nodes \<Rightarrow> Inr (sortByCreatedAtDesc nodes))"

text \<open>\<^verbatim>\<open>article.category || 'Uncategorized'\<close>: \<^verbatim>\<open>null\<close> and the empty string are falsy.\<close>

definition categoryKey :: "article \<Rightarrow> string" where
  "categoryKey a =
     (case category a of
        None \<Rightarrow> ''Uncategorized''
      | Some c \<Rightarrow> if c = [] then ''Uncategorized'' else c)"

text \<open>
  \<^verbatim>\<open>categorized\<close> is a plain object \<^verbatim>\<open>{}\<close>, so a lookup of a name that
  \<^verbatim>\<open>Object.prototype\<close> defines finds the inherited member: it is truthy, no array is
  created, and \<^verbatim>\<open>categorized[category].push(article)\<close> raises a \<open>TypeError\<close>.
\<close>

definition objectPrototypeKeys :: "string list" where
  "objectPrototypeKeys =
     [''constructor'', ''__proto__'', ''hasOwnProperty'', ''isPrototypeOf'',
      ''propertyIsEnumerable'', ''toLocaleString'', ''toString'', ''valueOf'',
      ''__defineGetter__'', ''__defineSetter__'', ''__lookupGetter__'', ''__lookupSetter__'']"

text \<open>
  The own property keys of \<^verbatim>\<open>categorized\<close>, in the order in which \<^verbatim>\<open>Object.keys\<close>
  enumerates them: array indices first, in ascending numeric order, then every other
  string in the order of its creation. An array index is the canonical decimal form of an
  integer from 0 to \<open>2^32 - 2\<close>.
\<close>

type_synonym 'v record_of = "(string \<times> 'v) list"

definition isDigit :: "char \<Rightarrow> bool" where
  "isDigit c = (48 \<le> (of_char c :: nat) \<and> (of_char c :: nat) \<le> 57)"

definition decimalValue :: "string \<Rightarrow> nat" where
  "decimalValue s = foldl (\<lambda>n c. 10 * n + ((of_char c :: nat) - 48)) 0 s"

fun canonicalDecimal :: "string \<Rightarrow> bool" where
  "canonicalDecimal [] = False"
| "canonicalDecimal [c] = isDigit c"
| "canonicalDecimal (c # d # cs) = (c \<noteq> CHR ''0'' \<and> list_all isDigit (c # d # cs))"

definition isArrayIndex :: "string \<Rightarrow> bool" where
  "isArrayIndex s = (canonicalDecimal s \<and> decimalValue s < 4294967295)"

text \<open>\<open>enumeratedBefore c k\<close>: the existing key \<open>k\<close> is enumerated before the new key \<open>c\<close>.\<close>

definition enumeratedBefore :: "string \<Rightarrow> string \<Rightarrow> bool" where
  "enumeratedBefore c k =
     (if isArrayIndex c then isArrayIndex k \<and> decimalValue k < decimalValue c else True)"

text \<open>
  \<^verbatim>\<open>if (!categorized[category]) categorized[category] = []; categorized[category].push(article)\<close>
  for a key that \<^verbatim>\<open>Object.prototype\<close> does not define.
\<close>

definition pushBucket :: "string \<Rightarrow> article \<Rightarrow> article list record_of \<Rightarrow> article list record_of" where
  "pushBucket c a acc =
     (case map_of acc c of
        None \<Rightarrow>
          takeWhile (\<lambda>(k, v). enumeratedBefore c k) acc @ (c, [a]) #
          dropWhile (\<lambda>(k, v). enumeratedBefore c k) acc
      | Some _ \<Rightarrow> map (\<lambda>(k, v). if k = c then (k, v @ [a]) else (k, v)) acc)"

fun groupByCategory :: "article list \<Rightarrow> article list record_of \<Rightarrow> error + article list record_of" where
  "groupByCategory [] acc = Inr acc"
| "groupByCategory (a # as) acc =
     (if categoryKey a \<in> set objectPrototypeKeys then Inl TypeError
      else groupByCategory as (pushBucket (categoryKey a) a acc))"

text \<open>The array found under a key, empty while the key has none.\<close>

definition bucketOf :: "article list record_of \<Rightarrow> string \<Rightarrow> article list" where
  "bucketOf acc c = (case map_of acc c of None \<Rightarrow> [] | Some v \<Rightarrow> v)"

text \<open>
  \<^verbatim>\<open>getCategorizedHierarchy\<close> from the rows \<^verbatim>\<open>data\<close> that the query returned: group,
  then build the hierarchy within each bucket.
\<close>

definition getCategorizedHierarchy :: "nat \<Rightarrow> article list \<Rightarrow> error + tree_node list record_of" where
  "getCategorizedHierarchy fuel articles =
     (case groupByCategory articles [] of
        Inl e \<Rightarrow> Inl e
      | Inr categorized \<Rightarrow>
          mapE (\<lambda>(c, bucket). case buildHierarchy fuel bucket None of
                                 Inl e \<Rightarrow> Inl e
                               | Inr ts \<Rightarrow> Inr (c, ts))
               categorized)"

text \<open>
  \<open>chained rows path\<close>: \<open>path\<close> lists the ids of nested calls of \<^verbatim>\<open>buildHierarchy\<close>,
  innermost first: every row with an id of the path has the next id of the path as its
  \<^verbatim>\<open>parentId\<close>, and the rows with the last id have none.
\<close>

fun chained :: "article list \<Rightarrow> string list \<Rightarrow> bool" where
  "chained rows [] = True"
| "chained rows (k # path) =
     ((\<forall>a\<in>set rows. id' a = k \<longrightarrow> parentId a = (case path of [] \<Rightarrow> None | p # _ \<Rightarrow> Some p)) \<and>
      chained rows path)"

text \<open>
  The order the specification asks of a level (non-increasing creation time), and the
  strict order (no two neighbours of a level created at the same time).
\<close>

definition descending :: "tree_node list \<Rightarrow> bool" where
  "descending ts =
     sorted_wrt (\<lambda>x y. createdAt (node_article x) \<ge> createdAt (node_article y)) ts"

definition strictlyDescending :: "tree_node list \<Rightarrow> bool" where
  "strictlyDescending ts =
     sorted_wrt (\<lambda>x y. createdAt (node_article x) > createdAt (node_article y)) ts"

section \<open>The root tree (\<^verbatim>\<open>fetchArticles\<close> of the article list page)\<close>

text \<open>
  \<^verbatim>\<open>articleMap\<close> holds one mutable wrapper object per key. The \<^verbatim>\<open>children\<close> array of a
  wrapper and \<^verbatim>\<open>rootArticles\<close> hold references to these wrappers; a reference is
  modelled by the key of the wrapper in \<^verbatim>\<open>articleMap\<close>, which never changes once the
  first pass is over.
\<close>

record extended_article =
  ext_article :: article
  ext_children :: "string list"

type_synonym article_map = "string \<rightharpoonup> extended_article"

text \<open>First pass: \<^verbatim>\<open>articleMap.set(article.id, { ...article, children: [] })\<close>.\<close>

fun firstPass :: "article list \<Rightarrow> article_map \<Rightarrow> article_map" where
  "firstPass [] m = m"
| "firstPass (a # as) m = firstPass as (m(id' a \<mapsto> \<lparr>ext_article = a, ext_children = []\<rparr>))"

text \<open>
  Second pass. \<^verbatim>\<open>article.parentId && articleMap.has(article.parentId)\<close>: \<^verbatim>\<open>null\<close> and
  the empty string are falsy.
\<close>

fun secondPass :: "article list \<Rightarrow> article_map \<times> string list \<Rightarrow> article_map \<times> string list" where
  "secondPass [] st = st"
| "secondPass (a # as) (m, rootArticles) =
     secondPass as
       (case parentId a of
          None \<Rightarrow> (m, rootArticles @ [id' a])
        | Some p \<Rightarrow>
            (case (if p \<noteq> [] then m p else None) of
               None \<Rightarrow> (m, rootArticles @ [id' a])
             | Some parent \<Rightarrow>
                 (m(p \<mapsto> parent\<lparr>ext_children := ext_children parent @ [id' a]\<rparr>),
                  rootArticles)))"

text \<open>
  \<^verbatim>\<open>fetchArticles\<close> from the outcome of \<^verbatim>\<open>articleAPI.getWithHierarchy()\<close>: a failed
  fetch is the only error; the builder itself has no failing branch.
\<close>

definition fetchArticles :: "error + article list \<Rightarrow> error + article_map \<times> string list" where
  "fetchArticles fetched =
     (case fetched of
        Inl e \<Rightarrow> Inl e
      | Inr fetchedArticles \<Rightarrow>
          Inr (secondPass fetchedArticles (firstPass fetchedArticles Map.empty, [])))"

text \<open>The \<^verbatim>\<open>children\<close> array of the wrapper behind a reference.\<close>

definition childrenOf :: "article_map \<Rightarrow> string \<Rightarrow> string list" where
  "childrenOf m k = (case m k of None \<Rightarrow> [] | Some node \<Rightarrow> ext_children node)"

text \<open>
  The references found at nesting depth \<open>d\<close> of the returned tree: the root list at
  depth 0, the children of the nodes of depth \<open>d\<close> at depth \<open>d + 1\<close>.
\<close>

fun level :: "article_map \<Rightarrow> string list \<Rightarrow> nat \<Rightarrow> string list" where
  "level m rootArticles 0 = rootArticles"
| "level m rootArticles (Suc d) = concat (map (childrenOf m) (level m rootArticles d))"

text \<open>
  The parent that the second pass finds for a record, given the keys of \<^verbatim>\<open>articleMap\<close>:
  none when \<^verbatim>\<open>parentId\<close> is absent, empty or not a key.
\<close>

definition validParent :: "string set \<Rightarrow> article \<Rightarrow> string option" where
  "validParent keys a =
     (case parentId a of
        None \<Rightarrow> None
      | Some p \<Rightarrow> if p \<noteq> [] \<and> p \<in> keys then Some p else None)"

text \<open>
  \<open>parentChain rows a d\<close>: following \<^verbatim>\<open>parentId\<close> from \<open>a\<close> through the records of \<open>rows\<close>
  reaches, after \<open>d\<close> steps, a record for which the second pass finds no parent.
\<close>

inductive parentChain :: "article list \<Rightarrow> article \<Rightarrow> nat \<Rightarrow> bool" for rows where
  chain_root:
    "a \<in> set rows \<Longrightarrow> validParent (id' ` set rows) a = None \<Longrightarrow> parentChain rows a 0"
| chain_child:
    "a \<in> set rows \<Longrightarrow> validParent (id' ` set rows) a = Some (id' b) \<Longrightarrow> b \<in> set rows \<Longrightarrow>
     parentChain rows b d \<Longrightarrow> parentChain rows a (Suc d)"

section \<open>Expansion state (\<^verbatim>\<open>toggleExpanded\<close>)\<close>

definition toggleExpanded :: "string set \<Rightarrow> string \<Rightarrow> string set" where
  "toggleExpanded expandedNodes nodeId =
     (if nodeId \<in> expandedNodes then expandedNodes - {nodeId} else insert nodeId expandedNodes)"

section \<open>Filtering and pagination (\<^verbatim>\<open>TableView\<close>)\<close>

text \<open>
  The state that \<^verbatim>\<open>TableView\<close> reads. \<open>articles\<close> is the root list; only the flat
  fields of a root are read. Page numbers and sizes are integer-valued numbers. The
  component is defined in the article list page, which renders another table in its place.
\<close>

record table_state =
  articles :: "article list"
  searchQuery :: string
  selectedCategory :: string
  statusFilter :: string
  currentPage :: int
  itemsPerPage :: int

text \<open>
  \<^verbatim>\<open>String.prototype.toLowerCase\<close> is a function of the runtime: the filter takes it as
  the parameter \<open>toLowerCase\<close>, and what is proved of the table holds for every case
  mapping. On text of ASCII characters it is \<open>asciiLowerCase\<close>, which the examples use.
\<close>

definition asciiLowerCase :: "string \<Rightarrow> string" where
  "asciiLowerCase s =
     map (\<lambda>c. if 65 \<le> (of_char c :: nat) \<and> (of_char c :: nat) \<le> 90
               then char_of ((of_char c :: nat) + 32) else c) s"

text \<open>\<^verbatim>\<open>s.includes(q)\<close>: \<open>q\<close> occurs in \<open>s\<close> as a contiguous run of characters.\<close>

fun includes' :: "string \<Rightarrow> string \<Rightarrow> bool" where
  "includes' [] q = (q = [])"
| "includes' (c # cs) q = (take (length q) (c # cs) = q \<or> includes' cs q)"

fun statusString :: "status \<Rightarrow> string" where
  "statusString Draft = ''draft''"
| "statusString Published = ''published''"

definition filteredArticles :: "(string \<Rightarrow> string) \<Rightarrow> table_state \<Rightarrow> article list" where
  "filteredArticles toLowerCase s =
     filter (\<lambda>a.
        (includes' (toLowerCase (title a)) (toLowerCase (searchQuery s)) \<or>
         includes' (toLowerCase (content a)) (toLowerCase (searchQuery s))) \<and>
        (selectedCategory s = ''all'' \<or> category a = Some (selectedCategory s)) \<and>
        (statusFilter s = ''all'' \<or> statusString (status a) = statusFilter s))
       (articles s)"

text \<open>
  \<^verbatim>\<open>Math.ceil(a / b)\<close> on integer-valued numbers. Division by zero raises nothing in
  JavaScript: the quotient is \<^verbatim>\<open>Infinity\<close> or \<^verbatim>\<open>NaN\<close>, here \<open>None\<close>.
\<close>

definition ceilDiv :: "int \<Rightarrow> int \<Rightarrow> int option" where
  "ceilDiv a b = (if b = 0 then None else Some \<lceil>real_of_int a / real_of_int b\<rceil>)"

definition totalPages :: "(string \<Rightarrow> string) \<Rightarrow> table_state \<Rightarrow> int option" where
  "totalPages toLowerCase s =
     ceilDiv (int (length (filteredArticles toLowerCase s))) (itemsPerPage s)"

text \<open>\<^verbatim>\<open>Array.prototype.slice(start, end)\<close>: a negative index counts from the end.\<close>

definition slice :: "'a list \<Rightarrow> int \<Rightarrow> int \<Rightarrow> 'a list" where
  "slice xs start fin =
     (let len = int (length xs);
          k = (if start < 0 then max (len + start) 0 else min start len);
          final = (if fin < 0 then max (len + fin) 0 else min fin len)
      in take (nat (final - k)) (drop (nat k) xs))"

definition paginatedArticles :: "(string \<Rightarrow> string) \<Rightarrow> table_state \<Rightarrow> article list" where
  "paginatedArticles toLowerCase s =
     slice (filteredArticles toLowerCase s) ((currentPage s - 1) * itemsPerPage s)
       (currentPage s * itemsPerPage s)"

text \<open>The state setters that the controls of the table call.\<close>

definition setSearchQuery :: "string \<Rightarrow> table_state \<Rightarrow> table_state" where
  "setSearchQuery q s = s\<lparr>searchQuery := q\<rparr>"

definition setSelectedCategory :: "string \<Rightarrow> table_state \<Rightarrow> table_state" where
  "setSelectedCategory c s = s\<lparr>selectedCategory := c\<rparr>"

definition setStatusFilter :: "string \<Rightarrow> table_state \<Rightarrow> table_state" where
  "setStatusFilter f s = s\<lparr>statusFilter := f\<rparr>"

definition setItemsPerPage :: "int \<Rightarrow> table_state \<Rightarrow> table_state" where
  "setItemsPerPage n s = s\<lparr>itemsPerPage := n\<rparr>"

definition setCurrentPage :: "int \<Rightarrow> table_state \<Rightarrow> table_state" where
  "setCurrentPage n s = s\<lparr>currentPage := n\<rparr>"

text \<open>
  The four page buttons; they are rendered only while \<^verbatim>\<open>totalPages > 1\<close>. \<open>pages\<close> is
  the value of \<^verbatim>\<open>totalPages\<close> of the render that shows the button.
\<close>

definition firstPage :: "table_state \<Rightarrow> table_state" where
  "firstPage s = setCurrentPage 1 s"

definition previousPage :: "table_state \<Rightarrow> table_state" where
  "previousPage s = setCurrentPage (max 1 (currentPage s - 1)) s"

definition nextPage :: "int \<Rightarrow> table_state \<Rightarrow> table_state" where
  "nextPage pages s = setCurrentPage (min pages (currentPage s + 1)) s"

definition lastPage :: "int \<Rightarrow> table_state \<Rightarrow> table_state" where
  "lastPage pages s = setCurrentPage pages s"

section \<open>Status change (\<^verbatim>\<open>articleAPI.updateStatus\<close>)\<close>

text \<open>The columns that an update payload can carry, with the value to store.\<close>

datatype column_update =
    SetTitle string
  | SetSlug string
  | SetContent string
  | SetCategory "string option"
  | SetStatus status
  | SetParentId "string option"
  | SetPublishedAt "timestamp option"
  | SetAuthorId "string option"
  | SetFeaturedImage "string option"
  | SetImageAlt "string option"

fun assign :: "column_update \<Rightarrow> article \<Rightarrow> article" where
  "assign (SetTitle v) r = r\<lparr>title := v\<rparr>"
| "assign (SetSlug v) r = r\<lparr>slug := v\<rparr>"
| "assign (SetContent v) r = r\<lparr>content := v\<rparr>"
| "assign (SetCategory v) r = r\<lparr>category := v\<rparr>"
| "assign (SetStatus v) r = r\<lparr>status := v\<rparr>"
| "assign (SetParentId v) r = r\<lparr>parentId := v\<rparr>"
| "assign (SetPublishedAt v) r = r\<lparr>publishedAt := v\<rparr>"
| "assign (SetAuthorId v) r = r\<lparr>authorId := v\<rparr>"
| "assign (SetFeaturedImage v) r = r\<lparr>featuredImage := v\<rparr>"
| "assign (SetImageAlt v) r = r\<lparr>imageAlt := v\<rparr>"

text \<open>
  Modelled from the spec: the update-by-id of the persistence collaborator (the query
  client and the store behind it are not part of the repository), for the query
  \<^verbatim>\<open>.update(payload).eq('id', id).select().single()\<close>. The rows whose \<^verbatim>\<open>id\<close> equals the
  given one take the columns of the payload; \<^verbatim>\<open>single()\<close> reports an error, and the
  store keeps its rows, unless exactly one row was matched.
\<close>

definition updateById :: "column_update list \<Rightarrow> string \<Rightarrow> article list \<Rightarrow> error + article list \<times> article" where
  "updateById payload i rows =
     (case filter (\<lambda>r. id' r = i) rows of
        [hit] \<Rightarrow> Inr (map (\<lambda>r. if id' r = i then fold assign payload r else r) rows,
                      fold assign payload hit)
      | _ \<Rightarrow> Inl QueryError)"

text \<open>
  \<^verbatim>\<open>updateStatus(id, status)\<close> on the rows of the store; \<open>now\<close> is the time that
  \<^verbatim>\<open>new Date()\<close> reads.
\<close>

definition updateStatus :: "timestamp \<Rightarrow> string \<Rightarrow> status \<Rightarrow> article list \<Rightarrow> error + article list \<times> article" where
  "updateStatus now i st rows =
     updateById [SetStatus st, SetPublishedAt (if st = Published then Some now else None)] i rows"

text \<open>What the payload of \<^verbatim>\<open>updateStatus\<close> makes of a row.\<close>

definition statusPayload :: "timestamp \<Rightarrow> status \<Rightarrow> article \<Rightarrow> article" where
  "statusPayload now st r =
     r\<lparr>status := st, publishedAt := (if st = Published then Some now else None)\<rparr>"

section \<open>Example records\<close>

definition exampleArticle :: "string \<Rightarrow> string option \<Rightarrow> string option \<Rightarrow> timestamp \<Rightarrow> article" where
  "exampleArticle i p c t =
     \<lparr>id' = i, title = ''Title '' @ i, slug = ''slug-'' @ i, content = ''Body'', category = c,
      status = Draft, parentId = p, createdAt = t, updatedAt = t, publishedAt = None,
      authorId = None, featuredImage = None, imageAlt = None\<rparr>"

definition exNewsRoot :: article where
  "exNewsRoot = exampleArticle ''1'' None (Some ''News'') 1000"

definition exNewsOld :: article where
  "exNewsOld = exampleArticle ''3'' (Some ''1'') (Some ''News'') 2000"

definition exNewsNew :: article where
  "exNewsNew = exampleArticle ''2'' (Some ''1'') (Some ''News'') 3000"

definition exSports :: article where
  "exSports = exampleArticle ''4'' (Some ''1'') (Some ''Sports'') 4000"

definition exampleRows :: "article list" where
  "exampleRows = [exNewsRoot, exNewsOld, exNewsNew, exSports]"

definition exampleNewsTree :: "tree_node list" where
  "exampleNewsTree = [TreeNode exNewsRoot [TreeNode exNewsNew [], TreeNode exNewsOld []]]"

definition exampleForest :: "tree_node list record_of" where
  "exampleForest = [(''News'', exampleNewsTree), (''Sports'', [])]"

definition exYearRows :: "article list" where
  "exYearRows =
     [exampleArticle ''1'' None (Some ''News'') 1000,
      exampleArticle ''2'' None (Some ''2024'') 2000,
      exampleArticle ''3'' None (Some ''10'') 3000]"

definition exUncategorizedParent :: article where
  "exUncategorizedParent = exampleArticle ''1'' None (Some ''Uncategorized'') 1000"

definition exEmptyCategoryChild :: article where
  "exEmptyCategoryChild = exampleArticle ''2'' (Some ''1'') (Some '''') 2000"

definition exTieFirst :: article where
  "exTieFirst = exampleArticle ''1'' None (Some ''News'') 1000"

definition exTieSecond :: article where
  "exTieSecond = exampleArticle ''2'' None (Some ''News'') 1000"

definition exCycleA :: article where
  "exCycleA = exampleArticle ''1'' (Some ''2'') (Some ''News'') 1000"

definition exCycleB :: article where
  "exCycleB = exampleArticle ''2'' (Some ''1'') (Some ''News'') 2000"

definition exOrphan :: article where
  "exOrphan = exampleArticle ''1'' (Some ''missing'') None 1000"

definition exOrphanChild :: article where
  "exOrphanChild = exampleArticle ''2'' (Some ''1'') (Some ''News'') 2000"

definition exCycleMap :: article_map where
  "exCycleMap =
     [''1'' \<mapsto> \<lparr>ext_article = exCycleA, ext_children = [''2'']\<rparr>,
      ''2'' \<mapsto> \<lparr>ext_article = exCycleB, ext_children = [''1'']\<rparr>]"

definition exOrphanMap :: article_map where
  "exOrphanMap =
     [''1'' \<mapsto> \<lparr>ext_article = exOrphan, ext_children = [''2'']\<rparr>,
      ''2'' \<mapsto> \<lparr>ext_article = exOrphanChild, ext_children = []\<rparr>]"

definition exampleMap :: article_map where
  "exampleMap =
     [''1'' \<mapsto> \<lparr>ext_article = exNewsRoot, ext_children = [''3'', ''2'', ''4'']\<rparr>,
      ''3'' \<mapsto> \<lparr>ext_article = exNewsOld, ext_children = []\<rparr>,
      ''2'' \<mapsto> \<lparr>ext_article = exNewsNew, ext_children = []\<rparr>,
      ''4'' \<mapsto> \<lparr>ext_article = exSports, ext_children = []\<rparr>]"



definition exScenarioD :: table_state where
  "exScenarioD =
     \<lparr>articles = exampleRows, searchQuery = ''foo'', selectedCategory = ''all'',
      statusFilter = ''published'', currentPage = 1, itemsPerPage = 10\<rparr>"


definition exPublished :: article where
  "exPublished = exNewsOld\<lparr>status := Published, publishedAt := Some 5000\<rparr>"

section \<open>Properties of the categorized forest\<close>


lemma mapE_Inr: "mapE f xs = Inr ys \<Longrightarrow> list_all2 (\<lambda>x y. f x = Inr y) xs ys"
  by (induction xs arbitrary: ys) (auto split: sum.splits)

lemma mapE_Inr_set: "mapE f xs = Inr ys \<Longrightarrow> y \<in> set ys \<Longrightarrow> \<exists>x\<in>set xs. f x = Inr y"
  by (induction xs arbitrary: ys) (auto split: sum.splits)

lemma subnodes_self: "t \<in> set (subnodes t)"
  by (cases t) simp

lemma subnodes_trans: "u \<in> set (subnodes t) \<Longrightarrow> v \<in> set (subnodes u) \<Longrightarrow> v \<in> set (subnodes t)"
proof (induction t arbitrary: u v)
  case (TreeNode a cs)
  show ?case
  proof (cases "u = TreeNode a cs")
    case True
    with TreeNode.prems show ?thesis by simp
  next
    case False
    with TreeNode.prems obtain c where c: "c \<in> set cs" "u \<in> set (subnodes c)"
      by auto
    from TreeNode.IH [OF c(1) c(2) TreeNode.prems(2)] c(1) show ?thesis
      by auto
  qed
qed

lemma forest_nodes_children:
  "t \<in> set (forest_nodes ts) \<Longrightarrow> v \<in> set (forest_nodes (children t)) \<Longrightarrow> v \<in> set (forest_nodes ts)"
proof -
  assume t: "t \<in> set (forest_nodes ts)" and v: "v \<in> set (forest_nodes (children t))"
  from t obtain r where r: "r \<in> set ts" "t \<in> set (subnodes r)"
    by (auto simp: forest_nodes_def)
  from v obtain c where c: "c \<in> set (children t)" "v \<in> set (subnodes c)"
    by (auto simp: forest_nodes_def)
  have "v \<in> set (subnodes t)"
    using c by (cases t) auto
  with r show ?thesis
    by (auto simp: forest_nodes_def intro: subnodes_trans)
qed

lemma buildHierarchy_articles:
  "buildHierarchy n rows pid = Inr ts \<Longrightarrow> t \<in> set (forest_nodes ts) \<Longrightarrow>
   node_article t \<in> set rows"
proof (induction n arbitrary: pid ts t)
  case 0
  then show ?case by simp
next
  case (Suc n)
  from Suc.prems(1) obtain nodes where
    nodes: "mapE (\<lambda>a. case buildHierarchy n rows (Some (id' a)) of
                         Inl e \<Rightarrow> Inl e | Inr cs \<Rightarrow> Inr (TreeNode a cs))
                 (filter (\<lambda>a. parentId a = pid) rows) = Inr nodes"
    and ts: "ts = sortByCreatedAtDesc nodes"
    by (auto split: sum.splits)
  from Suc.prems(2) ts obtain u where u: "u \<in> set nodes" "t \<in> set (subnodes u)"
    by (auto simp: forest_nodes_def sortByCreatedAtDesc_def)
  from mapE_Inr_set [OF nodes u(1)] obtain a cs where
    a: "a \<in> set rows" "parentId a = pid"
    and cs: "buildHierarchy n rows (Some (id' a)) = Inr cs" and u_eq: "u = TreeNode a cs"
    by (fastforce split: sum.splits)
  show ?case
  proof (cases "t = u")
    case True
    with u_eq a show ?thesis by simp
  next
    case False
    with u(2) u_eq have "t \<in> set (forest_nodes cs)"
      by (auto simp: forest_nodes_def)
    with Suc.IH [OF cs] show ?thesis by blast
  qed
qed

lemma map_of_push_existing:
  "map_of (map (\<lambda>(k, v). if k = c then (k, v @ [a]) else (k, v)) acc) k' =
     (if k' = c then map_option (\<lambda>v. v @ [a]) (map_of acc c) else map_of acc k')"
  by (induction acc) auto

lemma map_fst_push_existing:
  "map fst (map (\<lambda>(k, v). if k = c then (k, v @ [a]) else (k, v)) acc) = map fst acc"
  by (induction acc) auto

lemma map_of_push_new:
  "map_of (takeWhile P acc @ (c, v) # dropWhile P acc) k =
     (if k = c \<and> map_of (takeWhile P acc) c = None then Some v
      else map_of acc k)"
proof -
  have "map_of acc k = map_of (takeWhile P acc @ dropWhile P acc) k"
    by simp
  then show ?thesis
    by (simp only: map_of_append) (simp add: map_add_def split: option.splits)
qed

lemma map_of_takeWhile_None: "map_of acc c = None \<Longrightarrow> map_of (takeWhile P acc) c = None"
proof -
  assume "map_of acc c = None"
  then have "c \<notin> fst ` set acc" by (simp add: map_of_eq_None_iff)
  moreover have "set (takeWhile P acc) \<subseteq> set acc" by (rule set_takeWhileD [THEN conjunct1, THEN subsetI])
  ultimately have "c \<notin> fst ` set (takeWhile P acc)" by blast
  then show ?thesis by (simp add: map_of_eq_None_iff)
qed

lemma map_of_pushBucket:
  "map_of (pushBucket c a acc) k =
     (if k = c then Some ((case map_of acc c of None \<Rightarrow> [] | Some v \<Rightarrow> v) @ [a]) else map_of acc k)"
proof (cases "map_of acc c")
  case None
  then have "pushBucket c a acc =
      takeWhile (\<lambda>(k, v). enumeratedBefore c k) acc @ (c, [a]) #
      dropWhile (\<lambda>(k, v). enumeratedBefore c k) acc"
    by (simp add: pushBucket_def)
  then have "map_of (pushBucket c a acc) k = (if k = c then Some [a] else map_of acc k)"
    by (simp only: map_of_push_new map_of_takeWhile_None [OF None]) simp
  with None show ?thesis by simp
next
  case (Some v)
  then show ?thesis
    by (simp add: pushBucket_def map_of_push_existing)
qed

lemma distinct_pushBucket: "distinct (map fst acc) \<Longrightarrow> distinct (map fst (pushBucket c a acc))"
proof (cases "map_of acc c")
  case None
  assume d: "distinct (map fst acc)"
  let ?P = "\<lambda>(k, v). enumeratedBefore c k"
  from None have c: "c \<notin> fst ` set acc" by (simp add: map_of_eq_None_iff)
  have "map fst acc = map fst (takeWhile ?P acc) @ map fst (dropWhile ?P acc)"
    by (simp flip: map_append)
  with d have "distinct (map fst (takeWhile ?P acc) @ map fst (dropWhile ?P acc))"
    by simp
  moreover have "c \<notin> fst ` set (takeWhile ?P acc)" "c \<notin> fst ` set (dropWhile ?P acc)"
    using c set_takeWhileD [of _ ?P acc] set_dropWhileD [of _ ?P acc] by blast+
  ultimately show ?thesis
    using None by (simp add: pushBucket_def)
next
  case (Some v)
  assume "distinct (map fst acc)"
  moreover from Some have
    "pushBucket c a acc = map (\<lambda>(k, v). if k = c then (k, v @ [a]) else (k, v)) acc"
    by (simp add: pushBucket_def)
  ultimately show ?thesis by (simp only: map_fst_push_existing)
qed

lemma groupByCategory_spec:
  "groupByCategory as acc = Inr r \<Longrightarrow> distinct (map fst acc) \<Longrightarrow>
   distinct (map fst r) \<and>
   (\<forall>c. map_of r c =
      (if map_of acc c = None \<and> (\<forall>a\<in>set as. categoryKey a \<noteq> c) then None
       else Some (bucketOf acc c @ filter (\<lambda>a. categoryKey a = c) as)))"
proof (induction as arbitrary: acc)
  case Nil
  then show ?case by (auto simp: bucketOf_def)
next
  case (Cons a as)
  from Cons.prems(1) have
    r: "groupByCategory as (pushBucket (categoryKey a) a acc) = Inr r"
    by (simp split: if_splits)
  have d: "distinct (map fst (pushBucket (categoryKey a) a acc))"
    using Cons.prems(2) by (rule distinct_pushBucket)
  from Cons.IH [OF r d] show ?case
    by (auto simp: map_of_pushBucket bucketOf_def split: option.splits)
qed

lemma groupByCategory_bucket:
  assumes "groupByCategory rows [] = Inr r" and "(c, bucket) \<in> set r"
  shows "bucket = filter (\<lambda>a. categoryKey a = c) rows \<and> bucket \<noteq> []"
proof -
  from groupByCategory_spec [OF assms(1)] have
    d: "distinct (map fst r)" and
    m: "map_of r c = (if \<forall>a\<in>set rows. categoryKey a \<noteq> c then None
                      else Some (filter (\<lambda>a. categoryKey a = c) rows))"
    by (simp_all add: bucketOf_def)
  from d assms(2) have "map_of r c = Some bucket" by simp
  with m show ?thesis
    by (auto split: if_splits simp: filter_empty_conv)
qed

lemma getCategorizedHierarchy_bucket:
  assumes "getCategorizedHierarchy n rows = Inr forest" and "(c, ts) \<in> set forest"
  shows "buildHierarchy n (filter (\<lambda>a. categoryKey a = c) rows) None = Inr ts"
proof -
  from assms(1) obtain categorized where
    g: "groupByCategory rows [] = Inr categorized"
    and m: "mapE (\<lambda>(c, bucket). case buildHierarchy n bucket None of
                                 Inl e \<Rightarrow> Inl e | Inr ts \<Rightarrow> Inr (c, ts)) categorized = Inr forest"
    by (auto simp: getCategorizedHierarchy_def split: sum.splits)
  from mapE_Inr_set [OF m assms(2)] obtain bucket where
    b: "(c, bucket) \<in> set categorized" "buildHierarchy n bucket None = Inr ts"
    by (auto split: sum.splits)
  from groupByCategory_bucket [OF g b(1)] b(2) show ?thesis by simp
qed

lemma forest_bucket_key:
  assumes "getCategorizedHierarchy n rows = Inr forest"
    and "(c, ts) \<in> set forest" and "t \<in> set (forest_nodes ts)"
  shows "categoryKey (node_article t) = c \<and> node_article t \<in> set rows"
  using buildHierarchy_articles [OF getCategorizedHierarchy_bucket [OF assms(1,2)] assms(3)]
  by simp

lemma descending_sort: "descending (sortByCreatedAtDesc ts)"
proof -
  have "sorted (map (\<lambda>t. - createdAt (node_article t)) (sortByCreatedAtDesc ts))"
    unfolding sortByCreatedAtDesc_def by (rule sorted_sort_key)
  then show ?thesis
    by (simp add: descending_def sorted_map)
qed

lemma buildHierarchy_descending:
  "buildHierarchy n rows pid = Inr ts \<Longrightarrow>
   descending ts \<and> (\<forall>t\<in>set (forest_nodes ts). descending (children t))"
proof (induction n arbitrary: pid ts)
  case 0
  then show ?case by simp
next
  case (Suc n)
  from Suc.prems(1) obtain nodes where
    nodes: "mapE (\<lambda>a. case buildHierarchy n rows (Some (id' a)) of
                         Inl e \<Rightarrow> Inl e | Inr cs \<Rightarrow> Inr (TreeNode a cs))
                 (filter (\<lambda>a. parentId a = pid) rows) = Inr nodes"
    and ts: "ts = sortByCreatedAtDesc nodes"
    by (auto split: sum.splits)
  have "descending (children t)" if t: "t \<in> set (forest_nodes ts)" for t
  proof -
    from t ts obtain u where u: "u \<in> set nodes" "t \<in> set (subnodes u)"
      by (auto simp: forest_nodes_def sortByCreatedAtDesc_def)
    from mapE_Inr_set [OF nodes u(1)] obtain a cs where
      cs: "buildHierarchy n rows (Some (id' a)) = Inr cs" and u_eq: "u = TreeNode a cs"
      by (fastforce split: sum.splits)
    show ?thesis
    proof (cases "t = u")
      case True
      with u_eq Suc.IH [OF cs] show ?thesis by simp
    next
      case False
      with u(2) u_eq have "t \<in> set (forest_nodes cs)"
        by (auto simp: forest_nodes_def)
      with Suc.IH [OF cs] show ?thesis by blast
    qed
  qed
  with ts show ?case
    by (simp add: descending_sort)
qed

text \<open>
  A result of \<^verbatim>\<open>buildHierarchy\<close> stays the same when more stack is available, and rows
  with pairwise distinct ids are built within any depth greater than their number: on
  such rows no call from the top level meets a parent cycle.
\<close>

lemma mapE_total: "(\<And>x. x \<in> set xs \<Longrightarrow> \<exists>y. f x = Inr y) \<Longrightarrow> \<exists>ys. mapE f xs = Inr ys"
proof (induction xs)
  case Nil
  then show ?case by simp
next
  case (Cons x xs)
  from Cons.prems obtain y where "f x = Inr y" by auto
  moreover from Cons obtain ys where "mapE f xs = Inr ys" by auto
  ultimately show ?case by simp
qed

lemma mapE_cong_Inr:
  "mapE f xs = Inr ys \<Longrightarrow> (\<And>x y. x \<in> set xs \<Longrightarrow> f x = Inr y \<Longrightarrow> g x = Inr y) \<Longrightarrow>
   mapE g xs = Inr ys"
proof (induction xs arbitrary: ys)
  case Nil
  then show ?case by simp
next
  case (Cons x xs)
  from Cons.prems(1) obtain y ys' where
    y: "f x = Inr y" and ys': "mapE f xs = Inr ys'" and ys: "ys = y # ys'"
    by (auto split: sum.splits)
  from Cons.prems(2) y have "g x = Inr y" by simp
  moreover have "mapE g xs = Inr ys'"
    using ys' Cons.prems(2) by (intro Cons.IH) auto
  ultimately show ?case using ys by simp
qed

lemma buildHierarchy_more_fuel:
  "buildHierarchy n rows pid = Inr ts \<Longrightarrow> buildHierarchy (n + k) rows pid = Inr ts"
proof (induction n arbitrary: pid ts)
  case 0
  then show ?case by simp
next
  case (Suc n)
  let ?f = "\<lambda>m a. case buildHierarchy m rows (Some (id' a)) of
                       Inl e \<Rightarrow> Inl e | Inr cs \<Rightarrow> Inr (TreeNode a cs)"
  from Suc.prems obtain nodes where
    nodes: "mapE (?f n) (filter (\<lambda>a. parentId a = pid) rows) = Inr nodes"
    and ts: "ts = sortByCreatedAtDesc nodes"
    by (auto split: sum.splits)
  have "mapE (?f (n + k)) (filter (\<lambda>a. parentId a = pid) rows) = Inr nodes"
    using nodes
  proof (rule mapE_cong_Inr)
    fix a y
    assume "?f n a = Inr y"
    then obtain cs where "buildHierarchy n rows (Some (id' a)) = Inr cs" "y = TreeNode a cs"
      by (auto split: sum.splits)
    with Suc.IH [of "Some (id' a)" cs] show "?f (n + k) a = Inr y" by simp
  qed
  with ts show ?case by simp
qed

lemma chained_parent_position:
  "chained rows path \<Longrightarrow> distinct path \<Longrightarrow> a \<in> set rows \<Longrightarrow> id' a \<in> set path \<Longrightarrow>
   parentId a = Some q \<Longrightarrow> q \<in> set path \<and> q \<noteq> hd path"
proof (induction path)
  case Nil
  then show ?case by simp
next
  case (Cons k path)
  show ?case
  proof (cases "id' a = k")
    case True
    with Cons.prems(1,3,5) have "(case path of [] \<Rightarrow> None | p # _ \<Rightarrow> Some p) = Some q"
      by auto
    then obtain rest where "path = q # rest"
      by (cases path) auto
    with Cons.prems(2) show ?thesis by auto
  next
    case False
    with Cons.prems have "q \<in> set path"
      using Cons.IH by auto
    with Cons.prems(2) show ?thesis by auto
  qed
qed

lemma distinct_path_short:
  assumes "distinct path" and "set path \<subseteq> id' ` set rows"
  shows "length path \<le> length rows"
proof -
  have "length path = card (set path)"
    using assms(1) by (simp add: distinct_card)
  also have "\<dots> \<le> card (id' ` set rows)"
    using assms(2) by (simp add: card_mono)
  also have "\<dots> \<le> card (set rows)" by (simp add: card_image_le)
  also have "\<dots> \<le> length rows" by (rule card_length)
  finally show ?thesis .
qed

lemma unique_by_id:
  "distinct (map id' rows) \<Longrightarrow> a \<in> set rows \<Longrightarrow> b \<in> set rows \<Longrightarrow> id' b = id' a \<Longrightarrow> b = a"
  by (simp add: distinct_map inj_on_def)

lemma chained_extend:
  assumes "chained rows path" and "distinct (map id' rows)" and "a \<in> set rows"
    and "parentId a = (case path of [] \<Rightarrow> None | k # _ \<Rightarrow> Some k)"
  shows "chained rows (id' a # path)"
proof -
  have "parentId b = (case path of [] \<Rightarrow> None | k # _ \<Rightarrow> Some k)"
    if "b \<in> set rows" "id' b = id' a" for b
    using unique_by_id [OF assms(2,3) that] assms(4) by simp
  with assms(1) show ?thesis by simp
qed

lemma path_fresh:
  assumes "chained rows path" and "distinct path" and "a \<in> set rows"
    and "parentId a = (case path of [] \<Rightarrow> None | k # _ \<Rightarrow> Some k)"
  shows "id' a \<notin> set path"
proof
  assume in_path: "id' a \<in> set path"
  then obtain k rest where path: "path = k # rest" by (cases path) auto
  with assms(4) have "parentId a = Some k" by simp
  from chained_parent_position [OF assms(1,2,3) in_path this] path
  show False by simp
qed

lemma buildHierarchy_returns:
  assumes ids: "distinct (map id' rows)"
  shows "chained rows path \<Longrightarrow> distinct path \<Longrightarrow> set path \<subseteq> id' ` set rows \<Longrightarrow>
         pid = (case path of [] \<Rightarrow> None | k # _ \<Rightarrow> Some k) \<Longrightarrow>
         length rows < n + length path \<Longrightarrow> \<exists>ts. buildHierarchy n rows pid = Inr ts"
proof (induction n arbitrary: path pid)
  case 0
  from distinct_path_short [OF "0.prems"(2,3)] "0.prems"(5) show ?case by simp
next
  case (Suc n)
  let ?f = "\<lambda>a. case buildHierarchy n rows (Some (id' a)) of
                   Inl e \<Rightarrow> Inl e | Inr cs \<Rightarrow> Inr (TreeNode a cs)"
  have "\<exists>y. ?f a = Inr y" if a: "a \<in> set (filter (\<lambda>a. parentId a = pid) rows)" for a
  proof -
    from a have mem: "a \<in> set rows" and par: "parentId a = pid" by simp_all
    from par Suc.prems(4) have par': "parentId a = (case path of [] \<Rightarrow> None | k # _ \<Rightarrow> Some k)"
      by simp
    have c: "chained rows (id' a # path)"
      using Suc.prems(1) ids mem par' by (rule chained_extend)
    have d: "distinct (id' a # path)"
      using path_fresh [OF Suc.prems(1,2) mem par'] Suc.prems(2) by simp
    have s: "set (id' a # path) \<subseteq> id' ` set rows"
      using mem Suc.prems(3) by simp
    have p: "Some (id' a) = (case id' a # path of [] \<Rightarrow> None | k # _ \<Rightarrow> Some k)"
      by simp
    have l: "length rows < n + length (id' a # path)"
      using Suc.prems(5) by simp
    from Suc.IH [OF c d s p l] obtain cs where "buildHierarchy n rows (Some (id' a)) = Inr cs"
      by blast
    then show ?thesis by simp
  qed
  then have "\<exists>nodes. mapE ?f (filter (\<lambda>a. parentId a = pid) rows) = Inr nodes"
    by (rule mapE_total)
  then obtain nodes where "mapE ?f (filter (\<lambda>a. parentId a = pid) rows) = Inr nodes" ..
  then show ?case by simp
qed

lemma buildHierarchy_enough_fuel:
  assumes "distinct (map id' rows)" and "length rows < n"
  shows "\<exists>ts. buildHierarchy n rows None = Inr ts"
proof -
  have "chained rows []" "distinct ([] :: string list)" "set [] \<subseteq> id' ` set rows"
    "None = (case [] :: string list of [] \<Rightarrow> None | k # _ \<Rightarrow> Some k)"
    "length rows < n + length ([] :: string list)"
    using assms(2) by simp_all
  then show ?thesis by (rule buildHierarchy_returns [OF assms(1)])
qed

lemma groupByCategory_total:
  "(\<And>a. a \<in> set rows \<Longrightarrow> categoryKey a \<notin> set objectPrototypeKeys) \<Longrightarrow>
   \<exists>r. groupByCategory rows acc = Inr r"
proof (induction rows arbitrary: acc)
  case Nil
  then show ?case by simp
next
  case (Cons a rows)
  have "categoryKey a \<notin> set objectPrototypeKeys"
    by (rule Cons.prems) simp
  moreover have "\<exists>r. groupByCategory rows (pushBucket (categoryKey a) a acc) = Inr r"
    by (rule Cons.IH) (simp add: Cons.prems)
  ultimately show ?case by (simp del: set_simps)
qed

lemma getCategorizedHierarchy_enough_fuel:
  assumes "distinct (map id' rows)"
    and "\<And>a. a \<in> set rows \<Longrightarrow> categoryKey a \<notin> set objectPrototypeKeys"
    and "length rows < n"
  shows "\<exists>forest. getCategorizedHierarchy n rows = Inr forest"
proof -
  let ?f = "\<lambda>(c, bucket). case buildHierarchy n bucket None of
                            Inl e \<Rightarrow> Inl e | Inr ts \<Rightarrow> Inr (c, ts)"
  from groupByCategory_total [of rows "[]", OF assms(2)] obtain categorized where
    g: "groupByCategory rows [] = Inr categorized" by blast
  have "\<exists>y. ?f x = Inr y" if "x \<in> set categorized" for x
  proof -
    obtain c bucket where x: "x = (c, bucket)" by (cases x)
    from that x have "(c, bucket) \<in> set categorized" by simp
    from groupByCategory_bucket [OF g this] have
      b: "bucket = filter (\<lambda>a. categoryKey a = c) rows" by simp
    have "distinct (map id' bucket)"
      unfolding b using assms(1) by (rule distinct_map_filter)
    moreover have "length bucket \<le> length rows"
      unfolding b by (rule length_filter_le)
    with assms(3) have "length bucket < n" by simp
    ultimately obtain ts where "buildHierarchy n bucket None = Inr ts"
      using buildHierarchy_enough_fuel by blast
    with x show ?thesis by simp
  qed
  then have "\<exists>forest. mapE ?f categorized = Inr forest"
    by (rule mapE_total)
  with g show ?thesis by (simp add: getCategorizedHierarchy_def)
qed

lemmas example_defs =
  exNewsRoot_def exNewsOld_def exNewsNew_def exSports_def exampleRows_def exampleNewsTree_def
  exampleForest_def exUncategorizedParent_def exEmptyCategoryChild_def exTieFirst_def
  exTieSecond_def exampleArticle_def

lemmas example_defs' = example_defs
  exCycleA_def exCycleB_def exOrphan_def exampleMap_def

lemmas forest_eval =
  getCategorizedHierarchy_def categoryKey_def objectPrototypeKeys_def pushBucket_def
  enumeratedBefore_def isArrayIndex_def isDigit_def decimalValue_def
  sortByCreatedAtDesc_def numeral_3_eq_3 numeral_2_eq_2

lemma example_forest: "getCategorizedHierarchy 3 exampleRows = Inr exampleForest"
  by (simp add: example_defs forest_eval)

text \<open>Buckets whose keys are array indices come first, in numeric order.\<close>

lemma example_key_order:
  "map_sum id (map fst) (getCategorizedHierarchy 2 exYearRows) = Inr [''10'', ''2024'', ''News'']"
  by (simp add: exYearRows_def exampleArticle_def forest_eval)

section \<open>Claims about the categorized forest\<close>

text \<open>
  Claim C1 (Scenario C). For the rows \<open>[{id: 1, category: A}, {id: 2, parentId: 1, category: B}]\<close>
  the specification expects bucket A to be \<open>[{id: 1, children: []}]\<close> and bucket B to be
  \<open>[{id: 2, children: []}]\<close>. The code returns bucket A as expected, but bucket B is
  empty: the top level of a bucket keeps only the rows whose \<^verbatim>\<open>parentId\<close> is \<^verbatim>\<open>null\<close>, so
  the row whose parent lies in another category is in no level of its bucket. This holds
  whatever the other fields of the two rows are, for every stack depth of at least two.
\<close>

theorem scenario_C_cross_category_child_dropped:
  "getCategorizedHierarchy (Suc (Suc n))
     [x\<lparr>id' := ''1'', parentId := None, category := Some ''A''\<rparr>,
      y\<lparr>id' := ''2'', parentId := Some ''1'', category := Some ''B''\<rparr>] =
   Inr [(''A'', [TreeNode (x\<lparr>id' := ''1'', parentId := None, category := Some ''A''\<rparr>) []]),
        (''B'', [])]"
  by (simp add: forest_eval)



text \<open>
  Claim C5 as stated compares the \<^verbatim>\<open>category\<close> fields. Counterexample: a parent of
  category \<open>Uncategorized\<close> and a child whose category is the empty string have different
  categories, yet both fall into bucket \<open>Uncategorized\<close>, and the child is nested under
  the parent there.
\<close>

theorem raw_category_counterexample:
  "category exEmptyCategoryChild \<noteq> category exUncategorizedParent \<and>
   parentId exEmptyCategoryChild = Some (id' exUncategorizedParent) \<and>
   getCategorizedHierarchy 3 [exUncategorizedParent, exEmptyCategoryChild] =
     Inr [(''Uncategorized'', [TreeNode exUncategorizedParent [TreeNode exEmptyCategoryChild []]])]"
  by (simp add: example_defs forest_eval)

text \<open>
  Claim C5, amended. For all fetched rows \<open>a\<close> and \<open>b\<close> whose category keys differ (the key
  of a row is its category, or \<open>Uncategorized\<close> when the category is absent or empty) and
  with \<open>a.parentId = b.id\<close>: \<open>a\<close> appears nowhere below the node of \<open>b\<close> in the bucket
  of \<open>b\<close>. Linkage is evaluated only within one bucket.
\<close>

theorem cross_bucket_child_not_nested:
  assumes "a \<in> set rows" and "b \<in> set rows"
    and "categoryKey a \<noteq> categoryKey b"
    and "parentId a = Some (id' b)"
    and "getCategorizedHierarchy n rows = Inr forest"
    and "map_of forest (categoryKey b) = Some ts"
    and "t \<in> set (forest_nodes ts)"
    and "node_article t = b"
  shows "a \<notin> node_article ` set (forest_nodes (children t))"
proof
  assume "a \<in> node_article ` set (forest_nodes (children t))"
  then obtain v where v: "v \<in> set (forest_nodes (children t))" "node_article v = a"
    by auto
  from assms(7) v(1) have "v \<in> set (forest_nodes ts)"
    by (rule forest_nodes_children)
  moreover from assms(6) have "(categoryKey b, ts) \<in> set forest" by (rule map_of_SomeD)
  ultimately have "categoryKey (node_article v) = categoryKey b"
    using forest_bucket_key [OF assms(5)] by blast
  with v(2) assms(3) show False by simp
qed

text \<open>Witness for C5: the Sports row whose parent is the News root.\<close>

theorem cross_bucket_child_not_nested_witness:
  "exSports \<in> set exampleRows \<and> exNewsRoot \<in> set exampleRows \<and>
   categoryKey exSports \<noteq> categoryKey exNewsRoot \<and>
   parentId exSports = Some (id' exNewsRoot) \<and>
   getCategorizedHierarchy 3 exampleRows = Inr exampleForest \<and>
   map_of exampleForest (categoryKey exNewsRoot) = Some exampleNewsTree \<and>
   hd exampleNewsTree \<in> set (forest_nodes exampleNewsTree) \<and>
   node_article (hd exampleNewsTree) = exNewsRoot \<and>
   exSports \<notin> node_article ` set (forest_nodes (children (hd exampleNewsTree)))"
proof -
  have h1: "exSports \<in> set exampleRows" and h2: "exNewsRoot \<in> set exampleRows"
    by (simp_all add: exampleRows_def)
  have h3: "categoryKey exSports \<noteq> categoryKey exNewsRoot"
    by (simp add: example_defs categoryKey_def)
  have h4: "parentId exSports = Some (id' exNewsRoot)"
    by (simp add: example_defs)
  have h6: "map_of exampleForest (categoryKey exNewsRoot) = Some exampleNewsTree"
    by (simp add: example_defs categoryKey_def)
  have h7: "hd exampleNewsTree \<in> set (forest_nodes exampleNewsTree)"
    by (simp add: exampleNewsTree_def forest_nodes_def)
  have h8: "node_article (hd exampleNewsTree) = exNewsRoot"
    by (simp add: exampleNewsTree_def)
  from cross_bucket_child_not_nested [OF h1 h2 h3 h4 example_forest h6 h7 h8]
    h1 h2 h3 h4 example_forest h6 h7 h8
  show ?thesis by simp
qed

text \<open>
  Claim C6 as stated asks for strictly descending creation times. Counterexample: two
  roots of one category created at the same time are both kept, in the fetched order,
  and the level is not strictly descending.
\<close>

theorem equal_timestamps_counterexample:
  "getCategorizedHierarchy 2 [exTieFirst, exTieSecond] =
     Inr [(''News'', [TreeNode exTieFirst [], TreeNode exTieSecond []])] \<and>
   \<not> strictlyDescending [TreeNode exTieFirst [], TreeNode exTieSecond []]"
  by (simp add: example_defs forest_eval strictlyDescending_def)

text \<open>
  Claim C6, amended. In every bucket of the categorized forest and at every level of the
  tree (the root list of the bucket and the children of every node), the nodes are ordered
  by descending creation time, most recent first, where nodes of equal creation time may
  be neighbours.
\<close>

theorem every_level_descending:
  assumes "getCategorizedHierarchy n rows = Inr forest"
    and "map_of forest c = Some ts"
  shows "descending ts \<and> (\<forall>t\<in>set (forest_nodes ts). descending (children t))"
proof -
  from assms(2) have "(c, ts) \<in> set forest" by (rule map_of_SomeD)
  from getCategorizedHierarchy_bucket [OF assms(1) this] show ?thesis
    by (rule buildHierarchy_descending)
qed

text \<open>Witness for C6: the News bucket of the example forest, whose rows were fetched oldest first.\<close>

theorem every_level_descending_witness:
  "getCategorizedHierarchy 3 exampleRows = Inr exampleForest \<and>
   map_of exampleForest ''News'' = Some exampleNewsTree \<and>
   descending exampleNewsTree \<and>
   list_all (\<lambda>t. descending (children t)) (forest_nodes exampleNewsTree) \<and>
   children (hd exampleNewsTree) = [TreeNode exNewsNew [], TreeNode exNewsOld []]"
proof -
  have h2: "map_of exampleForest ''News'' = Some exampleNewsTree"
    by (simp add: exampleForest_def)
  from every_level_descending [OF example_forest h2] example_forest h2
  show ?thesis by (simp add: exampleNewsTree_def list_all_iff)
qed

section \<open>Properties of the root tree\<close>

lemma firstPass_dom: "dom (firstPass rows m) = dom m \<union> id' ` set rows"
  by (induction rows arbitrary: m) auto

lemma firstPass_fresh:
  "\<forall>k w. m k = Some w \<longrightarrow> ext_children w = [] \<Longrightarrow> firstPass rows m k = Some w \<Longrightarrow>
   ext_children w = []"
proof (induction rows arbitrary: m)
  case Nil
  then show ?case by simp
next
  case (Cons a rows)
  let ?m = "m(id' a \<mapsto> \<lparr>ext_article = a, ext_children = []\<rparr>)"
  have "\<forall>k w. ?m k = Some w \<longrightarrow> ext_children w = []"
    using Cons.prems(1) by auto
  moreover have "firstPass rows ?m k = Some w"
    using Cons.prems(2) by simp
  ultimately show ?case by (rule Cons.IH)
qed

lemma firstPass_keeps:
  "k \<notin> id' ` set rows \<Longrightarrow> firstPass rows m k = m k"
  by (induction rows arbitrary: m) auto

lemma firstPass_distinct:
  "distinct (map id' rows) \<Longrightarrow> a \<in> set rows \<Longrightarrow>
   firstPass rows m (id' a) = Some \<lparr>ext_article = a, ext_children = []\<rparr>"
proof (induction rows arbitrary: m)
  case Nil
  then show ?case by simp
next
  case (Cons r rows)
  show ?case
  proof (cases "a = r")
    case True
    with Cons.prems(1) show ?thesis
      by (simp add: firstPass_keeps)
  next
    case False
    with Cons show ?thesis by simp
  qed
qed

lemma secondPass_spec:
  "secondPass rows (m, roots) = (m', roots') \<Longrightarrow>
   dom m' = dom m \<and>
   roots' = roots @ map id' (filter (\<lambda>a. validParent (dom m) a = None) rows) \<and>
   (\<forall>k. childrenOf m' k =
      childrenOf m k @ map id' (filter (\<lambda>a. validParent (dom m) a = Some k) rows)) \<and>
   (\<forall>k. map_option ext_article (m' k) = map_option ext_article (m k))"
proof (induction rows arbitrary: m roots)
  case Nil
  then show ?case by simp
next
  case (Cons a rows)
  show ?case
  proof (cases "validParent (dom m) a")
    case None
    then have step: "secondPass rows (m, roots @ [id' a]) = (m', roots')"
      using Cons.prems by (auto simp: validParent_def split: option.splits if_splits)
    from Cons.IH [OF step] None show ?thesis by simp
  next
    case (Some p)
    then obtain parent where p: "parentId a = Some p" "p \<noteq> []" "m p = Some parent"
      by (auto simp: validParent_def split: option.splits if_splits)
    let ?m = "m(p \<mapsto> parent\<lparr>ext_children := ext_children parent @ [id' a]\<rparr>)"
    from p Cons.prems have step: "secondPass rows (?m, roots) = (m', roots')"
      by simp
    have d: "dom ?m = dom m" using p(3) by auto
    have c: "childrenOf ?m k = childrenOf m k @ (if k = p then [id' a] else [])" for k
      using p(3) by (simp add: childrenOf_def)
    from Cons.IH [OF step] Some p(3) show ?thesis
      unfolding d c by auto
  qed
qed

lemma fetchArticles_spec:
  assumes "fetchArticles (Inr rows) = Inr (m, roots)"
  shows "roots = map id' (filter (\<lambda>a. validParent (id' ` set rows) a = None) rows)"
    and "childrenOf m k = map id' (filter (\<lambda>a. validParent (id' ` set rows) a = Some k) rows)"
    and "map_option ext_article (m k) = map_option ext_article (firstPass rows Map.empty k)"
proof -
  from assms have sp: "secondPass rows (firstPass rows Map.empty, []) = (m, roots)"
    by (simp add: fetchArticles_def)
  have d: "dom (firstPass rows Map.empty) = id' ` set rows"
    by (simp add: firstPass_dom)
  have e: "childrenOf (firstPass rows Map.empty) k = []"
    using firstPass_fresh [of Map.empty rows k]
    by (auto simp: childrenOf_def split: option.splits)
  from secondPass_spec [OF sp] d e
  show "roots = map id' (filter (\<lambda>a. validParent (id' ` set rows) a = None) rows)"
    and "childrenOf m k = map id' (filter (\<lambda>a. validParent (id' ` set rows) a = Some k) rows)"
    and "map_option ext_article (m k) = map_option ext_article (firstPass rows Map.empty k)"
    by simp_all
qed

lemma fetchArticles_total: "\<exists>m roots. fetchArticles (Inr rows) = Inr (m, roots)"
  by (cases "secondPass rows (firstPass rows Map.empty, [])") (simp add: fetchArticles_def)

lemma count_map_filter_distinct:
  "distinct (map f xs) \<Longrightarrow> a \<in> set xs \<Longrightarrow>
   count_list (map f (filter P xs)) (f a) = (if P a then 1 else 0)"
proof (induction xs)
  case Nil
  then show ?case by simp
next
  case (Cons x xs)
  show ?case
  proof (cases "a = x")
    case True
    from Cons.prems(1) have "f x \<notin> set (map f (filter P xs))" by auto
    then have "count_list (map f (filter P xs)) (f x) = 0"
      by (simp only: count_list_0_iff not_False_eq_True)
    with True show ?thesis by simp
  next
    case False
    with Cons.prems have "a \<in> set xs" "f x \<noteq> f a" by auto
    with Cons show ?thesis by simp
  qed
qed

lemma count_list_concat_map:
  "count_list (concat (map g ks)) x = sum_list (map (\<lambda>k. count_list (g k) x) ks)"
  by (induction ks) simp_all

lemma sum_list_eq_count:
  "sum_list (map (\<lambda>k. if p = k then (1::nat) else 0) ks) = count_list ks p"
  by (induction ks) auto

lemma sum_list_eq_count_map:
  "sum_list (map (\<lambda>x. if p = g x then (1::nat) else 0) xs) = count_list (map g xs) p"
  by (induction xs) auto

lemma count_distinct_member:
  "distinct xs \<Longrightarrow> p \<in> set xs \<Longrightarrow> count_list xs p = 1"
  by (induction xs) auto

lemma count_roots:
  assumes "distinct (map id' rows)" and "a \<in> set rows"
    and "fetchArticles (Inr rows) = Inr (m, roots)"
  shows "count_list roots (id' a) = (if validParent (id' ` set rows) a = None then 1 else 0)"
  unfolding fetchArticles_spec(1) [OF assms(3)]
  using assms(1,2) by (rule count_map_filter_distinct)

lemma count_children:
  assumes "distinct (map id' rows)" and "a \<in> set rows"
    and "fetchArticles (Inr rows) = Inr (m, roots)"
  shows "count_list (childrenOf m k) (id' a) =
           (if validParent (id' ` set rows) a = Some k then 1 else 0)"
  unfolding fetchArticles_spec(2) [OF assms(3)]
  using assms(1,2) by (rule count_map_filter_distinct)

lemma count_next_level:
  assumes "distinct (map id' rows)" and "a \<in> set rows"
    and "fetchArticles (Inr rows) = Inr (m, roots)"
  shows "count_list (level m roots (Suc i)) (id' a) =
           (case validParent (id' ` set rows) a of
              None \<Rightarrow> 0
            | Some p \<Rightarrow> count_list (level m roots i) p)"
proof (cases "validParent (id' ` set rows) a")
  case None
  then show ?thesis
    by (simp add: count_list_concat_map count_children [OF assms])
next
  case (Some p)
  then show ?thesis
    by (simp add: count_list_concat_map count_children [OF assms] sum_list_eq_count)
qed

lemma chain_position:
  assumes "distinct (map id' rows)" and "fetchArticles (Inr rows) = Inr (m, roots)"
  shows "parentChain rows a d \<Longrightarrow>
         count_list (level m roots i) (id' a) = (if i = d then 1 else 0)"
proof (induction arbitrary: i rule: parentChain.induct)
  case (chain_root a)
  note here = count_roots [OF assms(1) chain_root(1) assms(2)]
    and below = count_next_level [OF assms(1) chain_root(1) assms(2)]
  show ?case
  proof (cases i)
    case 0
    with chain_root(2) here show ?thesis by simp
  next
    case (Suc j)
    with chain_root(2) below [of j] show ?thesis by (simp del: level.simps)
  qed
next
  case (chain_child a b d)
  note here = count_roots [OF assms(1) chain_child(1) assms(2)]
    and below = count_next_level [OF assms(1) chain_child(1) assms(2)]
  show ?case
  proof (cases i)
    case 0
    with chain_child(2) here show ?thesis by simp
  next
    case (Suc j)
    with chain_child(2) below [of j] chain_child.IH [of j] show ?thesis
      by (simp del: level.simps)
  qed
qed

lemma stored_once:
  assumes "distinct (map id' rows)" and "a \<in> set rows"
    and "fetchArticles (Inr rows) = Inr (m, roots)"
  shows "count_list roots (id' a) +
         sum_list (map (\<lambda>k. count_list (childrenOf m k) (id' a)) (map id' rows)) = 1"
proof (cases "validParent (id' ` set rows) a")
  case None
  then show ?thesis
    by (simp add: count_roots [OF assms] count_children [OF assms] comp_def)
next
  case (Some p)
  then have "p \<in> id' ` set rows"
    by (auto simp: validParent_def split: option.splits if_splits)
  with assms(1) have "count_list (map id' rows) p = 1"
    by (simp add: count_distinct_member)
  then have "sum_list (map (\<lambda>x. if p = id' x then (1::nat) else 0) rows) = 1"
    by (simp only: sum_list_eq_count_map)
  with Some show ?thesis
    by (simp add: count_roots [OF assms] count_children [OF assms] comp_def)
qed

lemma example_root_tree: "fetchArticles (Inr exampleRows) = Inr (exampleMap, [''1''])"
  by (simp add: fetchArticles_def example_defs' fun_upd_twist)

lemma example_chain: "parentChain exampleRows exNewsOld 1"
proof -
  have "parentChain exampleRows exNewsRoot 0"
    by (rule chain_root) (simp_all add: example_defs' validParent_def)
  then have "parentChain exampleRows exNewsOld (Suc 0)"
    by (rule chain_child [rotated 3]) (simp_all add: example_defs' validParent_def)
  then show ?thesis by simp
qed

text \<open>
  The node kept for a record, and the depths at which a reference is found: a reference
  at depth \<open>i\<close> of the returned tree belongs to a record whose parent chain ends after
  \<open>i\<close> steps.
\<close>

lemma fetched_node:
  assumes "distinct (map id' rows)" and "a \<in> set rows"
    and "fetchArticles (Inr rows) = Inr (m, roots)"
  shows "\<exists>w. m (id' a) = Some w \<and> ext_article w = a \<and>
           ext_children w =
             map id' (filter (\<lambda>b. validParent (id' ` set rows) b = Some (id' a)) rows)"
proof -
  have "map_option ext_article (m (id' a)) = Some a"
    unfolding fetchArticles_spec(3) [OF assms(3)]
    by (simp add: firstPass_distinct [OF assms(1,2)])
  then obtain w where w: "m (id' a) = Some w" "ext_article w = a"
    by auto
  from w(1) have "ext_children w = childrenOf m (id' a)"
    by (simp add: childrenOf_def)
  with w show ?thesis
    unfolding fetchArticles_spec(2) [OF assms(3)] by simp
qed

lemma level_member_chain:
  assumes "distinct (map id' rows)" and "fetchArticles (Inr rows) = Inr (m, roots)"
  shows "a \<in> set rows \<Longrightarrow> id' a \<in> set (level m roots i) \<Longrightarrow> parentChain rows a i"
proof (induction i arbitrary: a)
  case 0
  from "0.prems"(2) obtain b where
    b: "b \<in> set rows" "validParent (id' ` set rows) b = None" "id' b = id' a"
    unfolding level.simps fetchArticles_spec(1) [OF assms(2)] by auto
  from unique_by_id [OF assms(1) "0.prems"(1) b(1,3)] have "b = a" .
  with b(2) "0.prems"(1) show ?case by (simp add: chain_root)
next
  case (Suc i)
  from Suc.prems(2) obtain k where
    k: "k \<in> set (level m roots i)" "id' a \<in> set (childrenOf m k)"
    by auto
  from k(2) obtain b where
    b: "b \<in> set rows" "validParent (id' ` set rows) b = Some k" "id' b = id' a"
    unfolding fetchArticles_spec(2) [OF assms(2)] by auto
  from unique_by_id [OF assms(1) Suc.prems(1) b(1,3)] have "b = a" .
  with b(2) have par: "validParent (id' ` set rows) a = Some k" by simp
  then have "k \<in> id' ` set rows"
    by (auto simp: validParent_def split: option.splits if_splits)
  then obtain p where p: "p \<in> set rows" "k = id' p" by auto
  from Suc.IH [OF p(1)] k(1) p(2) have "parentChain rows p i" by simp
  with Suc.prems(1) par p show ?case
    by (auto intro: chain_child)
qed

lemma level_count:
  assumes "distinct (map id' rows)" and "a \<in> set rows"
    and "fetchArticles (Inr rows) = Inr (m, roots)"
  shows "count_list (level m roots i) (id' a) = (if parentChain rows a i then 1 else 0)"
proof (cases "parentChain rows a i")
  case True
  with chain_position [OF assms(1,3) True, of i] show ?thesis by simp
next
  case False
  with level_member_chain [OF assms(1,3,2)] have "id' a \<notin> set (level m roots i)"
    by blast
  with False show ?thesis by simp
qed

lemma chain_depth_unique:
  assumes "distinct (map id' rows)" and "parentChain rows a d" and "parentChain rows a d'"
  shows "d = d'"
proof -
  obtain m roots where f: "fetchArticles (Inr rows) = Inr (m, roots)"
    using fetchArticles_total by blast
  have one: "count_list (level m roots d') (id' a) = 1"
    using chain_position [OF assms(1) f assms(3), of d'] by simp
  have "count_list (level m roots d') (id' a) = (if d' = d then 1 else 0)"
    by (rule chain_position [OF assms(1) f assms(2)])
  with one show ?thesis
    by (cases "d' = d") simp_all
qed

lemma level_no_roots: "level m [] i = []"
  by (induction i) simp_all

lemma example_cycle_tree:
  "fetchArticles (Inr [exCycleA, exCycleB]) = Inr (exCycleMap, [])"
  by (simp add: fetchArticles_def example_defs' exCycleMap_def fun_upd_twist)

lemma example_orphan_tree:
  "fetchArticles (Inr [exOrphan, exOrphanChild]) = Inr (exOrphanMap, [''1''])"
  by (simp add: fetchArticles_def example_defs' exOrphanChild_def exOrphanMap_def fun_upd_twist)

section \<open>Claims about the root tree\<close>

text \<open>
  Claim C2 as stated covers every flat list. Counterexample: two records with distinct
  ids that name each other as parent. Each is pushed to the children of the other and the
  returned root list is empty, so neither record has a position in the returned tree.
\<close>

theorem parent_cycle_counterexample:
  "distinct (map id' [exCycleA, exCycleB]) \<and>
   fetchArticles (Inr [exCycleA, exCycleB]) =
     Inr ([''1'' \<mapsto> \<lparr>ext_article = exCycleA, ext_children = [''2'']\<rparr>,
           ''2'' \<mapsto> \<lparr>ext_article = exCycleB, ext_children = [''1'']\<rparr>], [])"
  by (simp add: fetchArticles_def example_defs' fun_upd_twist)

text \<open>
  Claim C2, amended. For every flat list of records with pairwise distinct ids, the
  root-tree builder keeps one node for every record and stores it exactly once, where its
  \<^verbatim>\<open>parentId\<close> says: a record whose \<^verbatim>\<open>parentId\<close> is absent, empty or the id of no record of
  the list is once in the returned root list and in no children sequence; every other
  record is once in the children sequence of the node its \<^verbatim>\<open>parentId\<close> names, in no other
  children sequence and not in the root list. A record occupies a position of the returned
  tree, at nesting depth \<open>i\<close>, exactly when its parent chain ends after \<open>i\<close> steps at a
  record of the first kind, and then it occupies that one position only: no such record
  is duplicated and none is lost. A record whose parent chain does not end (a parent
  cycle) occupies no position of the returned tree.
\<close>

theorem every_record_placed_by_parent:
  assumes "distinct (map id' rows)" and "a \<in> set rows"
    and "fetchArticles (Inr rows) = Inr (m, roots)"
  shows "map_option ext_article (m (id' a)) = Some a \<and>
         count_list roots (id' a) = (if validParent (id' ` set rows) a = None then 1 else 0) \<and>
         (\<forall>k. count_list (childrenOf m k) (id' a) =
               (if validParent (id' ` set rows) a = Some k then 1 else 0)) \<and>
         (\<forall>i. count_list (level m roots i) (id' a) = (if parentChain rows a i then 1 else 0)) \<and>
         (\<forall>d d'. parentChain rows a d \<longrightarrow> parentChain rows a d' \<longrightarrow> d = d')"
proof -
  from fetched_node [OF assms] have "map_option ext_article (m (id' a)) = Some a"
    by auto
  moreover note count_roots [OF assms] count_children [OF assms] level_count [OF assms]
  moreover have "d = d'" if "parentChain rows a d" "parentChain rows a d'" for d d'
    using assms(1) that by (rule chain_depth_unique)
  ultimately show ?thesis by blast
qed

text \<open>
  Witness for C2: the older News child of the example rows, found once, under its parent,
  at depth 1; and a record of the two-record cycle, whose parent chain never ends.
\<close>

theorem every_record_placed_by_parent_witness:
  "distinct (map id' exampleRows) \<and> exNewsOld \<in> set exampleRows \<and>
   fetchArticles (Inr exampleRows) = Inr (exampleMap, [''1'']) \<and>
   map_option ext_article (exampleMap (id' exNewsOld)) = Some exNewsOld \<and>
   validParent (id' ` set exampleRows) exNewsOld = Some ''1'' \<and>
   count_list [''1''] (id' exNewsOld) = 0 \<and>
   count_list (childrenOf exampleMap ''1'') (id' exNewsOld) = 1 \<and>
   count_list (childrenOf exampleMap ''2'') (id' exNewsOld) = 0 \<and>
   parentChain exampleRows exNewsOld 1 \<and>
   count_list (level exampleMap [''1''] 1) (id' exNewsOld) = 1 \<and>
   \<not> parentChain exampleRows exNewsOld 0 \<and>
   count_list (level exampleMap [''1''] 0) (id' exNewsOld) = 0 \<and>
   fetchArticles (Inr [exCycleA, exCycleB]) = Inr (exCycleMap, []) \<and>
   (\<forall>i. \<not> parentChain [exCycleA, exCycleB] exCycleA i)"
proof -
  have c1: "distinct (map id' [exCycleA, exCycleB])" and c2: "exCycleA \<in> set [exCycleA, exCycleB]"
    by (simp_all add: example_defs')
  from every_record_placed_by_parent [OF c1 c2 example_cycle_tree]
  have lc: "count_list (level exCycleMap [] i) (id' exCycleA) =
      (if parentChain [exCycleA, exCycleB] exCycleA i then 1 else 0)" for i
    by blast
  have cyc: "\<not> parentChain [exCycleA, exCycleB] exCycleA i" for i
    using lc [of i] by (simp add: level_no_roots split: if_splits)
  have h1: "distinct (map id' exampleRows)" and h2: "exNewsOld \<in> set exampleRows"
    by (simp_all add: example_defs')
  note t = every_record_placed_by_parent [OF h1 h2 example_root_tree]
  have v: "validParent (id' ` set exampleRows) exNewsOld = Some ''1''"
    by (simp add: validParent_def example_defs')
  from t have node: "map_option ext_article (exampleMap (id' exNewsOld)) = Some exNewsOld"
    by (rule conjunct1)
  from t v have r: "count_list [''1''] (id' exNewsOld) = 0"
    by simp
  from t v have c: "count_list (childrenOf exampleMap k) (id' exNewsOld) =
      (if Some ''1'' = Some k then 1 else 0)" for k
    by simp
  from t have l: "count_list (level exampleMap [''1''] i) (id' exNewsOld) =
      (if parentChain exampleRows exNewsOld i then 1 else 0)" for i
    by blast
  from t example_chain have n: "\<not> parentChain exampleRows exNewsOld 0"
    by (metis zero_neq_one)
  from l [of 1] l [of 0] example_chain n
  have "count_list (level exampleMap [''1''] 1) (id' exNewsOld) = 1"
    and "count_list (level exampleMap [''1''] 0) (id' exNewsOld) = 0"
    by simp_all
  with h1 h2 example_root_tree node v r c [of "''1''"] c [of "''2''"] example_chain n
    example_cycle_tree cyc
  show ?thesis by simp
qed

text \<open>
  Claim C3. Ids are unique in the store (\<^verbatim>\<open>id\<close> is its primary key). For every flat list
  with pairwise distinct ids and every record \<open>a\<close> of it whose \<^verbatim>\<open>parentId\<close> is the id of no
  record of the list, the fetch that succeeded yields a tree (no error is raised); the
  returned root list holds the node of \<open>a\<close>, once, and no children sequence holds it; the
  node was created with an empty children sequence and ends with the records that name
  \<open>a\<close> as their parent.
\<close>

theorem dangling_parent_becomes_root:
  assumes "distinct (map id' rows)" and "a \<in> set rows"
    and "parentId a = Some X" and "X \<notin> id' ` set rows"
  shows "\<exists>m roots w. fetchArticles (Inr rows) = Inr (m, roots) \<and>
           count_list roots (id' a) = 1 \<and> (\<forall>k. count_list (childrenOf m k) (id' a) = 0) \<and>
           m (id' a) = Some w \<and> ext_article w = a \<and>
           ext_children w =
             map id' (filter (\<lambda>b. validParent (id' ` set rows) b = Some (id' a)) rows) \<and>
           firstPass rows Map.empty (id' a) = Some \<lparr>ext_article = a, ext_children = []\<rparr>"
proof -
  obtain m roots where f: "fetchArticles (Inr rows) = Inr (m, roots)"
    using fetchArticles_total by blast
  have v: "validParent (id' ` set rows) a = None"
    using assms(3,4) by (simp add: validParent_def)
  have "count_list roots (id' a) = 1"
    using count_roots [OF assms(1,2) f] v by simp
  moreover have "count_list (childrenOf m k) (id' a) = 0" for k
    using count_children [OF assms(1,2) f, of k] v by simp
  moreover from fetched_node [OF assms(1,2) f] obtain w where
    "m (id' a) = Some w" "ext_article w = a"
    "ext_children w = map id' (filter (\<lambda>b. validParent (id' ` set rows) b = Some (id' a)) rows)"
    by blast
  moreover note firstPass_distinct [OF assms(1,2), of Map.empty]
  ultimately show ?thesis using f by blast
qed

text \<open>
  Witness for C3 (Scenario B, with a child): the record whose parent is \<open>missing\<close> is the
  only root and carries its child.
\<close>

theorem dangling_parent_becomes_root_witness:
  "distinct (map id' [exOrphan, exOrphanChild]) \<and> exOrphan \<in> set [exOrphan, exOrphanChild] \<and>
   parentId exOrphan = Some ''missing'' \<and>
   ''missing'' \<notin> id' ` set [exOrphan, exOrphanChild] \<and>
   fetchArticles (Inr [exOrphan, exOrphanChild]) = Inr (exOrphanMap, [''1'']) \<and>
   exOrphanMap (id' exOrphan) = Some \<lparr>ext_article = exOrphan, ext_children = [''2'']\<rparr> \<and>
   (\<exists>m roots w. fetchArticles (Inr [exOrphan, exOrphanChild]) = Inr (m, roots) \<and>
      count_list roots (id' exOrphan) = 1 \<and> m (id' exOrphan) = Some w \<and>
      ext_article w = exOrphan)"
proof -
  have h1: "distinct (map id' [exOrphan, exOrphanChild])"
    and h2: "exOrphan \<in> set [exOrphan, exOrphanChild]"
    and h3: "parentId exOrphan = Some ''missing''"
    and h4: "''missing'' \<notin> id' ` set [exOrphan, exOrphanChild]"
    by (simp_all add: example_defs' exOrphanChild_def)
  have n: "exOrphanMap (id' exOrphan) = Some \<lparr>ext_article = exOrphan, ext_children = [''2'']\<rparr>"
    by (simp add: exOrphanMap_def exOrphan_def exampleArticle_def)
  from dangling_parent_becomes_root [OF h1 h2 h3 h4]
  have "\<exists>m roots w. fetchArticles (Inr [exOrphan, exOrphanChild]) = Inr (m, roots) \<and>
      count_list roots (id' exOrphan) = 1 \<and> m (id' exOrphan) = Some w \<and>
      ext_article w = exOrphan"
    by blast
  with h1 h2 h3 h4 example_orphan_tree n show ?thesis by blast
qed

section \<open>Claims about the expansion state\<close>

text \<open>
  Claim C8. For every expansion set \<open>S\<close> and key \<open>k\<close>, toggling \<open>k\<close> twice gives back
  exactly \<open>S\<close>; one toggle is the symmetric difference with \<open>{k}\<close>: it adds \<open>k\<close> when
  absent, removes it when present, and changes the membership of no other key.
\<close>

theorem toggle_is_symmetric_difference:
  "toggleExpanded (toggleExpanded S k) k = S \<and>
   toggleExpanded S k = (S - {k}) \<union> ({k} - S) \<and>
   (k \<in> toggleExpanded S k \<longleftrightarrow> k \<notin> S) \<and>
   (\<forall>j. j \<noteq> k \<longrightarrow> (j \<in> toggleExpanded S k \<longleftrightarrow> j \<in> S))"
  by (auto simp: toggleExpanded_def)

text \<open>Witness for C8: an article key toggled in a set that also holds a category key.\<close>

theorem toggle_is_symmetric_difference_witness:
  "toggleExpanded (toggleExpanded {''1'', ''category-News''} ''1'') ''1'' = {''1'', ''category-News''} \<and>
   toggleExpanded {''1'', ''category-News''} ''1'' = {''category-News''} \<and>
   toggleExpanded {''category-News''} ''1'' = {''1'', ''category-News''} \<and>
   ''category-News'' \<in> toggleExpanded {''1'', ''category-News''} ''1'' \<and>
   ''1'' \<notin> toggleExpanded {''1'', ''category-News''} ''1''"
proof -
  note t = toggle_is_symmetric_difference [of "{''1'', ''category-News''}" "''1''"]
  have "''category-News'' \<in> toggleExpanded {''1'', ''category-News''} ''1''"
    using t by simp
  moreover have "toggleExpanded {''1'', ''category-News''} ''1'' = {''category-News''}"
    using t by auto
  moreover have "toggleExpanded {''category-News''} ''1'' = {''1'', ''category-News''}"
    using toggle_is_symmetric_difference [of "{''category-News''}" "''1''"] by auto
  ultimately show ?thesis using t by simp
qed

section \<open>Properties of the table view\<close>

lemma ceilDiv_bounds:
  assumes "0 < b"
  shows "\<exists>T. ceilDiv a b = Some T \<and> (T - 1) * b < a \<and> a \<le> T * b"
proof -
  let ?x = "real_of_int a / real_of_int b"
  let ?T = "\<lceil>?x\<rceil>"
  from assms have b: "0 < real_of_int b" by simp
  have "?x \<le> of_int ?T" by (rule le_of_int_ceiling)
  with b have "real_of_int a \<le> of_int ?T * real_of_int b"
    by (simp only: pos_divide_le_eq)
  then have "real_of_int a \<le> real_of_int (?T * b)" by (simp only: of_int_mult)
  then have up: "a \<le> ?T * b" by (simp only: of_int_le_iff)
  have "of_int ?T - 1 < ?x" using ceiling_correct [of ?x] by simp
  with b have "(of_int ?T - 1) * real_of_int b < real_of_int a"
    by (simp only: pos_less_divide_eq)
  then have "real_of_int ((?T - 1) * b) < real_of_int a"
    by (simp only: of_int_mult of_int_diff of_int_1)
  then have low: "(?T - 1) * b < a" by (simp only: of_int_less_iff)
  from assms have "ceilDiv a b = Some ?T" by (simp add: ceilDiv_def)
  with up low show ?thesis by blast
qed


lemma slice_Nil: "slice [] start fin = []"
  by (simp add: slice_def)

lemma slice_beyond: "int (length xs) \<le> start \<Longrightarrow> slice xs start fin = []"
  by (simp add: slice_def Let_def)





lemma scenario_D_no_match: "filteredArticles asciiLowerCase exScenarioD = []"
  by (simp add: filteredArticles_def exScenarioD_def example_defs)







text \<open>
  The setters of the page size and of the filters leave the current page as it was; when
  that page exceeds the new \<^verbatim>\<open>totalPages\<close>, the paginated list is empty. The four page
  buttons lead from a page within \<open>[1, totalPages]\<close> to a page within \<open>[1, totalPages]\<close>.
\<close>

lemma filter_change_keeps_page:
  assumes "s' \<in> {setItemsPerPage n s, setSearchQuery q s, setSelectedCategory c s,
                  setStatusFilter f s}"
    and "0 < itemsPerPage s'" and "totalPages toLowerCase s' = Some T"
  shows "currentPage s' = currentPage s \<and>
         (T < currentPage s \<longrightarrow> paginatedArticles toLowerCase s' = []) \<and>
         (1 \<le> currentPage s \<and> currentPage s \<le> T \<longrightarrow>
            currentPage (firstPage s') \<in> {1..T} \<and> currentPage (previousPage s') \<in> {1..T} \<and>
            currentPage (nextPage T s') \<in> {1..T} \<and> currentPage (lastPage T s') \<in> {1..T})"
proof -
  have page: "currentPage s' = currentPage s"
    using assms(1)
    by (auto simp: setItemsPerPage_def setSearchQuery_def setSelectedCategory_def
        setStatusFilter_def)
  from ceilDiv_bounds [OF assms(2), of "int (length (filteredArticles toLowerCase s'))"] assms(3)
  have T: "int (length (filteredArticles toLowerCase s')) \<le> T * itemsPerPage s'"
    by (simp add: totalPages_def)
  have "paginatedArticles toLowerCase s' = []" if "T < currentPage s"
  proof -
    from that page have "T \<le> currentPage s' - 1" by simp
    with assms(2) have "T * itemsPerPage s' \<le> (currentPage s' - 1) * itemsPerPage s'"
      by (simp only: mult_right_mono less_imp_le)
    with T have "int (length (filteredArticles toLowerCase s')) \<le> (currentPage s' - 1) * itemsPerPage s'"
      by (rule order_trans)
    then show ?thesis
      unfolding paginatedArticles_def by (rule slice_beyond)
  qed
  moreover have "currentPage (firstPage s') \<in> {1..T} \<and> currentPage (previousPage s') \<in> {1..T} \<and>
      currentPage (nextPage T s') \<in> {1..T} \<and> currentPage (lastPage T s') \<in> {1..T}"
    if "1 \<le> currentPage s \<and> currentPage s \<le> T"
    using that page
    by (simp add: firstPage_def previousPage_def nextPage_def lastPage_def setCurrentPage_def)
  ultimately show ?thesis using page by blast
qed

section \<open>Claims about the table view\<close>

text \<open>
  Claim C7. For a positive page size (the table offers 5, 10, 20 and 50, and starts with
  10), \<^verbatim>\<open>totalPages\<close> is a finite number \<open>T\<close>, the least integer with
  \<open>matchCount \<le> T * pageSize\<close>, which is \<open>ceil(matchCount / pageSize)\<close>; and whenever the
  filters match no record, \<^verbatim>\<open>totalPages\<close> is 0 and the paginated list is empty.
\<close>

theorem table_total_pages:
  assumes "0 < itemsPerPage s"
  shows "(\<exists>T. totalPages toLowerCase s = Some T \<and>
            (T - 1) * itemsPerPage s < int (length (filteredArticles toLowerCase s)) \<and>
            int (length (filteredArticles toLowerCase s)) \<le> T * itemsPerPage s) \<and>
         (filteredArticles toLowerCase s = [] \<longrightarrow>
            totalPages toLowerCase s = Some 0 \<and> paginatedArticles toLowerCase s = [])"
proof -
  have "\<exists>T. totalPages toLowerCase s = Some T \<and>
            (T - 1) * itemsPerPage s < int (length (filteredArticles toLowerCase s)) \<and>
            int (length (filteredArticles toLowerCase s)) \<le> T * itemsPerPage s"
    unfolding totalPages_def using assms by (rule ceilDiv_bounds)
  moreover have "totalPages toLowerCase s = Some 0 \<and> paginatedArticles toLowerCase s = []"
    if "filteredArticles toLowerCase s = []"
    using that assms by (simp add: totalPages_def ceilDiv_def paginatedArticles_def slice_Nil)
  ultimately show ?thesis by blast
qed

text \<open>
  Witness for C7 (Scenario D): search \<open>foo\<close> and status \<open>published\<close> over rows that are
  all drafts.
\<close>

theorem table_total_pages_witness:
  "0 < itemsPerPage exScenarioD \<and> filteredArticles asciiLowerCase exScenarioD = [] \<and>
   totalPages asciiLowerCase exScenarioD = Some 0 \<and> paginatedArticles asciiLowerCase exScenarioD = []"
proof -
  have h: "0 < itemsPerPage exScenarioD" by (simp add: exScenarioD_def)
  from table_total_pages [OF h] scenario_D_no_match h show ?thesis by blast
qed


section \<open>Properties of the status change\<close>

lemma fold_status_payload:
  "fold assign [SetStatus st, SetPublishedAt (if st = Published then Some now else None)] r =
     statusPayload now st r"
  by (simp add: statusPayload_def)

lemma updateById_Inr:
  assumes "updateById payload i rows = Inr (rows', r)"
  shows "\<exists>hit. filter (\<lambda>x. id' x = i) rows = [hit] \<and>
           rows' = map (\<lambda>x. if id' x = i then fold assign payload x else x) rows \<and>
           r = fold assign payload hit"
proof (cases "filter (\<lambda>x. id' x = i) rows")
  case Nil
  with assms show ?thesis by (simp add: updateById_def)
next
  case (Cons hit rest)
  show ?thesis
  proof (cases rest)
    case Nil
    with Cons assms show ?thesis by (simp add: updateById_def)
  next
    case (Cons x xs)
    with \<open>filter (\<lambda>x. id' x = i) rows = hit # rest\<close> assms show ?thesis
      by (simp add: updateById_def)
  qed
qed

lemma updateStatus_Inr:
  assumes "updateStatus now i st rows = Inr (rows', r)"
  shows "\<exists>hit. filter (\<lambda>x. id' x = i) rows = [hit] \<and>
           rows' = map (\<lambda>x. if id' x = i then statusPayload now st x else x) rows \<and>
           r = statusPayload now st hit"
  using updateById_Inr [OF assms [unfolded updateStatus_def]]
  unfolding fold_status_payload .

lemma statusPayload_fields:
  "status (statusPayload now st x) = st"
  "publishedAt (statusPayload now st x) = (if st = Published then Some now else None)"
  "id' (statusPayload now st x) = id' x" "title (statusPayload now st x) = title x"
  "slug (statusPayload now st x) = slug x" "content (statusPayload now st x) = content x"
  "category (statusPayload now st x) = category x"
  "parentId (statusPayload now st x) = parentId x"
  "createdAt (statusPayload now st x) = createdAt x"
  "authorId (statusPayload now st x) = authorId x"
  "featuredImage (statusPayload now st x) = featuredImage x"
  "imageAlt (statusPayload now st x) = imageAlt x"
  by (simp_all add: statusPayload_def)

lemma example_hit: "filter (\<lambda>x. id' x = ''3'') exampleRows = [exNewsOld]"
  by (simp add: exampleRows_def exNewsRoot_def exNewsOld_def exNewsNew_def exSports_def
      exampleArticle_def)

lemma example_update:
  "updateStatus 5000 ''3'' Published exampleRows =
     Inr ([exNewsRoot, exPublished, exNewsNew, exSports], exPublished)"
proof -
  have ids: "id' exNewsRoot \<noteq> ''3''" "id' exNewsOld = ''3''" "id' exNewsNew \<noteq> ''3''"
    "id' exSports \<noteq> ''3''"
    by (simp_all add: exNewsRoot_def exNewsOld_def exNewsNew_def exSports_def exampleArticle_def)
  show ?thesis
    unfolding updateStatus_def updateById_def example_hit
    by (simp add: exampleRows_def ids exPublished_def)
qed

section \<open>Claims about the status change\<close>

text \<open>
  Claim C9. When \<^verbatim>\<open>updateStatus(id, status)\<close> succeeds, exactly one row has the given
  id; that row gets the new status, and \<^verbatim>\<open>publishedAt\<close> becomes the current time for
  \<open>published\<close> and \<^verbatim>\<open>null\<close> for \<open>draft\<close>, while its id, title, slug, content, category,
  parentId, createdAt, authorId, featuredImage and imageAlt stay as they were; every other
  row of the store is unchanged, and the returned article is the updated row.
\<close>

theorem updateStatus_frame:
  assumes "updateStatus now i st rows = Inr (rows', r)"
  shows "length rows' = length rows \<and> length (filter (\<lambda>x. id' x = i) rows) = 1 \<and>
         (\<forall>j<length rows.
            (id' (rows ! j) \<noteq> i \<longrightarrow> rows' ! j = rows ! j) \<and>
            (id' (rows ! j) = i \<longrightarrow>
               r = rows' ! j \<and> status (rows' ! j) = st \<and>
               publishedAt (rows' ! j) = (if st = Published then Some now else None) \<and>
               id' (rows' ! j) = id' (rows ! j) \<and> title (rows' ! j) = title (rows ! j) \<and>
               slug (rows' ! j) = slug (rows ! j) \<and> content (rows' ! j) = content (rows ! j) \<and>
               category (rows' ! j) = category (rows ! j) \<and>
               parentId (rows' ! j) = parentId (rows ! j) \<and>
               createdAt (rows' ! j) = createdAt (rows ! j) \<and>
               authorId (rows' ! j) = authorId (rows ! j) \<and>
               featuredImage (rows' ! j) = featuredImage (rows ! j) \<and>
               imageAlt (rows' ! j) = imageAlt (rows ! j)))"
proof -
  from updateStatus_Inr [OF assms] obtain hit where
    hit: "filter (\<lambda>x. id' x = i) rows = [hit]"
    and rows': "rows' = map (\<lambda>x. if id' x = i then statusPayload now st x else x) rows"
    and r: "r = statusPayload now st hit"
    by blast
  have len: "length rows' = length rows" by (simp add: rows')
  have one: "length (filter (\<lambda>x. id' x = i) rows) = 1" by (simp add: hit)
  have other: "rows' ! j = rows ! j" if "j < length rows" "id' (rows ! j) \<noteq> i" for j
    using that by (simp add: rows')
  have target: "rows' ! j = statusPayload now st (rows ! j) \<and> r = rows' ! j"
    if "j < length rows" "id' (rows ! j) = i" for j
  proof -
    from that have "rows ! j \<in> set (filter (\<lambda>x. id' x = i) rows)" by simp
    with hit have "rows ! j = hit" by simp
    with that r show ?thesis by (simp add: rows')
  qed
  show ?thesis
    using len one other target by (simp add: statusPayload_fields)
qed

text \<open>Witness for C9: publishing the older News child of the example rows at time 5000.\<close>

theorem updateStatus_frame_witness:
  "updateStatus 5000 ''3'' Published exampleRows =
     Inr ([exNewsRoot, exPublished, exNewsNew, exSports], exPublished) \<and>
   length (filter (\<lambda>x. id' x = ''3'') exampleRows) = 1 \<and>
   [exNewsRoot, exPublished, exNewsNew, exSports] ! 0 = exampleRows ! 0 \<and>
   exampleRows ! 1 = exNewsOld \<and>
   [exNewsRoot, exPublished, exNewsNew, exSports] ! 1 = exPublished \<and>
   status exPublished = Published \<and> publishedAt exPublished = Some 5000 \<and>
   title exPublished = title exNewsOld \<and> content exPublished = content exNewsOld \<and>
   parentId exPublished = parentId exNewsOld \<and> createdAt exPublished = createdAt exNewsOld"
proof -
  note t = updateStatus_frame [OF example_update]
  have l: "(0::nat) < length exampleRows" "(1::nat) < length exampleRows"
    by (simp_all add: exampleRows_def)
  have i: "id' (exampleRows ! 0) \<noteq> ''3''" "id' (exampleRows ! 1) = ''3''"
    by (simp_all add: exampleRows_def exNewsRoot_def exNewsOld_def exampleArticle_def)
  have n: "exampleRows ! 1 = exNewsOld"
    "[exNewsRoot, exPublished, exNewsNew, exSports] ! 1 = exPublished"
    by (simp_all add: exampleRows_def)
  from t have c1: "length (filter (\<lambda>x. id' x = ''3'') exampleRows) = 1"
    by blast
  from t l(1) i(1) have c2: "[exNewsRoot, exPublished, exNewsNew, exSports] ! 0 = exampleRows ! 0"
    by blast
  from t l(2) i(2) have
    "status ([exNewsRoot, exPublished, exNewsNew, exSports] ! 1) = Published \<and>
     publishedAt ([exNewsRoot, exPublished, exNewsNew, exSports] ! 1) =
       (if Published = Published then Some 5000 else None) \<and>
     title ([exNewsRoot, exPublished, exNewsNew, exSports] ! 1) = title (exampleRows ! 1) \<and>
     content ([exNewsRoot, exPublished, exNewsNew, exSports] ! 1) = content (exampleRows ! 1) \<and>
     parentId ([exNewsRoot, exPublished, exNewsNew, exSports] ! 1) = parentId (exampleRows ! 1) \<and>
     createdAt ([exNewsRoot, exPublished, exNewsNew, exSports] ! 1) = createdAt (exampleRows ! 1)"
    by blast
  then have c3: "status exPublished = Published \<and> publishedAt exPublished = Some 5000 \<and>
     title exPublished = title exNewsOld \<and> content exPublished = content exNewsOld \<and>
     parentId exPublished = parentId exNewsOld \<and> createdAt exPublished = createdAt exNewsOld"
    unfolding n by simp
  from example_update c1 c2 n c3 show ?thesis by blast
qed

end
